theory Spec2Isabelle
  imports Main "HOL-Library.Word"
begin

section \<open>Data model of the Extended Action Switch plugin\<close>

text \<open>
  The embedding follows \<^verbatim>\<open>src/extended-action-switch/src/plugin.ts\<close>.

  A JavaScript string is a sequence of UTF-16 code units. \<open>ascii\<close> writes one from its
  ASCII text.
\<close>

type_synonym jsstring = "16 word list"

definition ascii :: "string \<Rightarrow> jsstring" where
  "ascii s = map of_char s"

text \<open>
  The declared types at the end of the file are
  \<^verbatim>\<open>Command = { type: "hotkey" | "url" | "text" | "delay" | "run"; value: string }\<close>,
  \<^verbatim>\<open>ActionTree = Command[]\<close> and
  \<^verbatim>\<open>SwitchSettings = { tree0?: ActionTree; tree1?: ActionTree; treeHold?: ActionTree }\<close>.
  An optional property is an \<open>option\<close>: \<open>None\<close> is \<^verbatim>\<open>undefined\<close>.
\<close>

datatype cmd_type = Hotkey | Url | Text | Delay | Run

record command =
  cmd_type :: cmd_type
  cmd_value :: jsstring

type_synonym action_tree = "command list"

record switch_settings =
  tree0 :: "action_tree option"
  tree1 :: "action_tree option"
  treeHold :: "action_tree option"

text \<open>
  A key event as the handlers read it: \<^verbatim>\<open>ev.action\<close> (the control the event belongs to,
  an object, here its identifier), \<^verbatim>\<open>ev.payload.state\<close> (optional, a state index) and
  \<^verbatim>\<open>ev.payload.settings\<close>.
\<close>

type_synonym action_id = string

record key_event =
  action :: action_id
  state :: "nat option"
  settings :: switch_settings

text \<open>
  The payload of a property inspector message is untyped in the source
  (\<^verbatim>\<open>onSendToPlugin(ev: any)\<close>); \<open>index\<close> and \<open>tree\<close> are passed through unread.
\<close>

datatype jsval = Undefined | Num int | Str jsstring

record inspector_event =
  pi_action :: action_id
  pi_event :: jsstring
  pi_index :: jsval
  pi_tree :: jsval

record file_picked =
  fp_event :: jsstring
  fp_filePath :: jsstring
  fp_index :: jsval
  fp_tree :: jsval

text \<open>
  The numbers that \<^verbatim>\<open>parseInt\<close> can return: \<^verbatim>\<open>NaN\<close>, a double whose value is an integer,
  and the two infinities. Negative zero is not told apart from zero; \<^verbatim>\<open>isNaN\<close> and
  \<^verbatim>\<open>setTimeout\<close> do not tell them apart either.
\<close>

datatype jsnumber = NaN | Integer int | PlusInfinity | MinusInfinity

text \<open>
  What the plugin does to the outside world, in the order it does it. The three helpers
  \<^verbatim>\<open>simulateHotkey\<close>, \<^verbatim>\<open>simulateTyping\<close> and \<^verbatim>\<open>open\<close> hand a command line to the operating
  system; the embedding records the call and its argument, not the command line.
  \<open>Sleep ms\<close> is \<^verbatim>\<open>setTimeout(res, ms)\<close> awaited, with the number it was given. A thrown
  value is kept as its description.
\<close>

datatype platform_call =
    SimulateHotkey jsstring
  | SimulateTyping jsstring
  | Open jsstring

datatype effect =
    Exec platform_call
  | Sleep jsnumber
  | ConsoleError cmd_type string
  | SetState action_id nat
  | SendToPropertyInspector action_id file_picked

text \<open>
  The platform decides whether a call throws. Its answer may depend on everything that
  happened before, so the executor reads the trace so far: \<open>Some err\<close> is a thrown or
  rejected error, \<open>None\<close> a call that completes.
\<close>

type_synonym executor = "effect list \<Rightarrow> platform_call \<Rightarrow> string option"

text \<open>
  The handler object and its surroundings. \<open>pressTimer\<close>, \<open>isLongPress\<close> and
  \<open>initialState\<close> are the three private fields of the class, of which one object is
  registered (\<^verbatim>\<open>registerAction(new ExtendedActionSwitch())\<close>). The rest is the
  environment: the timers set by \<^verbatim>\<open>setTimeout\<close> that have neither fired nor been cleared,
  each with the key-down event its callback closes over; the next fresh timer handle; the
  toggle state the host keeps for every control; and the trace of effects.
\<close>

type_synonym timer = nat

record plugin_state =
  pressTimer :: "timer option"
  isLongPress :: bool
  initialState :: nat
  pending :: "(timer \<times> key_event) list"
  nextTimer :: timer
  hostState :: "action_id \<Rightarrow> nat"
  trace :: "effect list"

section \<open>JavaScript built-ins used by the source\<close>

text \<open>
  White space for \<^verbatim>\<open>parseInt\<close> and \<^verbatim>\<open>String.prototype.trim\<close>: the code points
  \<^verbatim>\<open>WhiteSpace\<close> (TAB, VT, FF, U+FEFF and the space separators U+0020, U+00A0, U+1680,
  U+2000 to U+200A, U+202F, U+205F, U+3000) and \<^verbatim>\<open>LineTerminator\<close> (LF, CR, U+2028,
  U+2029). Each is one code unit.
\<close>

definition isWhiteSpace :: "16 word \<Rightarrow> bool" where
  "isWhiteSpace c \<longleftrightarrow>
     c \<in> set [0x0009, 0x000A, 0x000B, 0x000C, 0x000D, 0x0020, 0x00A0, 0x1680,
               0x2028, 0x2029, 0x202F, 0x205F, 0x3000, 0xFEFF]
     \<or> (0x2000 \<le> c \<and> c \<le> 0x200A)"

definition isDigit :: "16 word \<Rightarrow> bool" where
  "isDigit c \<longleftrightarrow> 0x30 \<le> c \<and> c \<le> 0x39"

definition digitValue :: "16 word \<Rightarrow> nat" where
  "digitValue c = unat c - 48"

definition digitsToNat :: "jsstring \<Rightarrow> nat" where
  "digitsToNat ds = foldl (\<lambda>acc c. 10 * acc + digitValue c) 0 ds"

text \<open>
  The double nearest to a natural number, ties to the even significand; \<open>None\<close> when the
  number rounds to infinity. Below \<open>2 ^ 53\<close> every natural number is a double.
\<close>

fun bitLength :: "nat \<Rightarrow> nat" where
  "bitLength n = (if n = 0 then 0 else Suc (bitLength (n div 2)))"

declare bitLength.simps [simp del]

definition toDouble :: "nat \<Rightarrow> nat option" where
  "toDouble n =
     (if n < 2 ^ 53 then Some n
      else let e = bitLength n - 53;
               q = n div 2 ^ e;
               r = n mod 2 ^ e;
               h = 2 ^ (e - 1);
               q' = (if h < r \<or> (r = h \<and> odd q) then q + 1 else q);
               v = q' * 2 ^ e
           in if 2 ^ 1024 \<le> v then None else Some v)"

text \<open>
  \<^verbatim>\<open>parseInt(s, 10)\<close>: leading white space is skipped, one sign is accepted, and the longest
  prefix of decimal digits is read; with no digit the result is \<^verbatim>\<open>NaN\<close>, otherwise the
  double nearest to the number the digits denote, with the sign. (The standard lets an
  implementation read zeros for the digits after the twentieth; the conversion here is
  the exact one.)
\<close>

definition parseInt :: "jsstring \<Rightarrow> jsnumber" where
  "parseInt str =
     (let s1 = dropWhile isWhiteSpace str;
          (negative, s2) = (case s1 of
                              [] \<Rightarrow> (False, [])
                            | c # r \<Rightarrow> if c = 0x2D then (True, r)
                                      else if c = 0x2B then (False, r)
                                      else (False, s1));
          z = takeWhile isDigit s2
      in if z = [] then NaN
         else (case toDouble (digitsToNat z) of
                 None \<Rightarrow> if negative then MinusInfinity else PlusInfinity
               | Some v \<Rightarrow> Integer (if negative then - int v else int v)))"

fun isNaN :: "jsnumber \<Rightarrow> bool" where
  "isNaN NaN = True"
| "isNaN n = False"

text \<open>\<^verbatim>\<open>String.prototype.trim\<close>: white space is removed at both ends.\<close>

definition trim :: "jsstring \<Rightarrow> jsstring" where
  "trim str = rev (dropWhile isWhiteSpace (rev (dropWhile isWhiteSpace str)))"

section \<open>The action tree interpreter\<close>

text \<open>
  A platform call: the executor sees the call (it is added to the trace) and the platform
  decides whether it throws. \<open>Inl err\<close> is an exception, \<open>Inr ()\<close> normal completion.
\<close>

definition call :: "executor \<Rightarrow> platform_call \<Rightarrow> effect list \<Rightarrow> (string + unit) \<times> effect list" where
  "call ex c tr =
     (case ex tr c of
        Some err \<Rightarrow> (Inl err, tr @ [Exec c])
      | None \<Rightarrow> (Inr (), tr @ [Exec c]))"

text \<open>
  The body of the \<^verbatim>\<open>switch\<close> in \<^verbatim>\<open>runActionTree\<close>. For a delay,
  \<^verbatim>\<open>const ms = parseInt(cmd.value, 10); if (!isNaN(ms)) await new Promise(res => setTimeout(res, ms))\<close>:
  nothing happens when the value does not parse, and neither branch throws.
\<close>

definition dispatch :: "executor \<Rightarrow> command \<Rightarrow> effect list \<Rightarrow> (string + unit) \<times> effect list" where
  "dispatch ex cmd tr =
     (case cmd_type cmd of
        Hotkey \<Rightarrow> call ex (SimulateHotkey (cmd_value cmd)) tr
      | Url \<Rightarrow> call ex (Open (cmd_value cmd)) tr
      | Text \<Rightarrow> call ex (SimulateTyping (cmd_value cmd)) tr
      | Delay \<Rightarrow> (let ms = parseInt (cmd_value cmd)
                  in if \<not> isNaN ms then (Inr (), tr @ [Sleep ms]) else (Inr (), tr))
      | Run \<Rightarrow> call ex (Open (cmd_value cmd)) tr)"

text \<open>
  One iteration of the loop: the \<^verbatim>\<open>try\<close> block and its \<^verbatim>\<open>catch\<close>, which writes
  \<^verbatim>\<open>Failed to execute command <type>\<close> and the error to the console and ends the iteration
  normally.
\<close>

definition runCommand :: "executor \<Rightarrow> command \<Rightarrow> effect list \<Rightarrow> effect list" where
  "runCommand ex cmd tr =
     (case dispatch ex cmd tr of
        (Inr _, tr') \<Rightarrow> tr'
      | (Inl err, tr') \<Rightarrow> tr' @ [ConsoleError (cmd_type cmd) err])"

text \<open>\<^verbatim>\<open>for (const cmd of tree) { try { ... } catch (err) { ... } }\<close>\<close>

fun runActionTree :: "executor \<Rightarrow> action_tree \<Rightarrow> effect list \<Rightarrow> effect list" where
  "runActionTree ex [] tr = tr"
| "runActionTree ex (cmd # tree) tr = runActionTree ex tree (runCommand ex cmd tr)"

section \<open>The press handler\<close>

text \<open>\<^verbatim>\<open>ev.action.setState(n)\<close>: the host stores the state of that control.\<close>

definition setState :: "action_id \<Rightarrow> nat \<Rightarrow> plugin_state \<Rightarrow> plugin_state" where
  "setState a n s = s\<lparr>hostState := (hostState s)(a := n), trace := trace s @ [SetState a n]\<rparr>"

text \<open>
  \<^verbatim>\<open>if (tree && tree.length > 0) await this.runActionTree(tree)\<close>, the guard that both
  \<^verbatim>\<open>executeHold\<close> and \<^verbatim>\<open>executeToggle\<close> put before the interpreter.
\<close>

definition runIfPresent :: "executor \<Rightarrow> action_tree option \<Rightarrow> plugin_state \<Rightarrow> plugin_state" where
  "runIfPresent ex t s =
     (case t of
        None \<Rightarrow> s
      | Some tree \<Rightarrow> if length tree > 0 then s\<lparr>trace := runActionTree ex tree (trace s)\<rparr> else s)"

text \<open>\<^verbatim>\<open>ev.payload.state ?? 0\<close>\<close>

definition payloadState :: "key_event \<Rightarrow> nat" where
  "payloadState ev = (case state ev of None \<Rightarrow> 0 | Some n \<Rightarrow> n)"

definition executeHold :: "executor \<Rightarrow> key_event \<Rightarrow> plugin_state \<Rightarrow> plugin_state" where
  "executeHold ex ev s = runIfPresent ex (treeHold (settings ev)) s"

definition executeToggle :: "executor \<Rightarrow> key_event \<Rightarrow> plugin_state \<Rightarrow> plugin_state" where
  "executeToggle ex ev s =
     (let currentState = payloadState ev;
          nextState = (if currentState = 0 then 1 else 0);
          treeToRun = (if currentState = 0 then tree0 (settings ev) else tree1 (settings ev));
          s1 = runIfPresent ex treeToRun s
      in setState (action ev) nextState s1)"

text \<open>
  \<^verbatim>\<open>onKeyDown\<close>: the flag is cleared, the state of the event is captured (\<^verbatim>\<open>?? 0\<close>) and a
  timer is set whose handle overwrites \<open>pressTimer\<close>. The callback keeps the key-down event.
\<close>

definition onKeyDown :: "key_event \<Rightarrow> plugin_state \<Rightarrow> plugin_state" where
  "onKeyDown ev s =
     s\<lparr>isLongPress := False,
       initialState := payloadState ev,
       pressTimer := Some (nextTimer s),
       pending := pending s @ [(nextTimer s, ev)],
       nextTimer := Suc (nextTimer s)\<rparr>"

text \<open>
  The timer callback \<^verbatim>\<open>async () => { this.isLongPress = true; await this.executeHold(ev); }\<close>.
  The field \<open>pressTimer\<close> keeps the handle of a timer that has fired.
\<close>

definition timerCallback :: "executor \<Rightarrow> key_event \<Rightarrow> plugin_state \<Rightarrow> plugin_state" where
  "timerCallback ex ev s = executeHold ex ev (s\<lparr>isLongPress := True\<rparr>)"

text \<open>\<^verbatim>\<open>clearTimeout(t)\<close>: a timer that is not pending any more is left alone.\<close>

definition clearTimeout :: "timer \<Rightarrow> plugin_state \<Rightarrow> plugin_state" where
  "clearTimeout t s = s\<lparr>pending := filter (\<lambda>p. fst p \<noteq> t) (pending s)\<rparr>"

definition onKeyUp :: "executor \<Rightarrow> key_event \<Rightarrow> plugin_state \<Rightarrow> plugin_state" where
  "onKeyUp ex ev s =
     (let s1 = (case pressTimer s of
                  Some t \<Rightarrow> (clearTimeout t s)\<lparr>pressTimer := None\<rparr>
                | None \<Rightarrow> s)
      in if isLongPress s1
         then setState (action ev) (initialState s1) s1
         else executeToggle ex ev s1)"

text \<open>
  \<^verbatim>\<open>browseFile\<close> runs the dialog command with \<^verbatim>\<open>exec\<close> and resolves in its callback:
  the empty string when \<^verbatim>\<open>err\<close> is set, the trimmed standard output otherwise.
\<close>

datatype exec_result = ExecError string | ExecOk jsstring

definition browseFile :: "exec_result \<Rightarrow> jsstring" where
  "browseFile r = (case r of ExecError err \<Rightarrow> [] | ExecOk stdout \<Rightarrow> trim stdout)"

definition onSendToPlugin :: "inspector_event \<Rightarrow> exec_result \<Rightarrow> plugin_state \<Rightarrow> plugin_state" where
  "onSendToPlugin ev r s =
     (if pi_event ev = ascii ''browseFile''
      then let filePath = browseFile r
           in s\<lparr>trace := trace s @
                  [SendToPropertyInspector (pi_action ev)
                     \<lparr>fp_event = ascii ''filePicked'', fp_filePath = filePath,
                      fp_index = pi_index ev, fp_tree = pi_tree ev\<rparr>]\<rparr>
      else s)"

section \<open>Events\<close>

text \<open>
  The handlers run on one thread, so what the host and the timer queue deliver is a
  sequence of events. A timer can fire only while it is pending; the host may change the
  state of a control on its own (\<open>HostSetsState\<close>). A step that is not possible is \<open>None\<close>.

  Every handler reads and writes the three fields and the timers before its first
  \<^verbatim>\<open>await\<close>; what comes after is the tree and the state write, which touch neither. A step
  takes the whole handler at once, so the trace of a step lists what the handler does up
  to the end of its tree. In the source the next event can be handled while a tree is
  still running: a release can write the state while the hold tree awaits. This
  interleaves the trace entries of the two handlers and changes neither their decisions
  nor what they call and write. The statements about a press with its timer are
  therefore about the calls made (\<open>observed\<close>) and the states written (\<open>stateWrites\<close>),
  which do not depend on how the two interleave.
\<close>

datatype event =
    KeyDown key_event
  | KeyUp key_event
  | TimerFires timer
  | HostSetsState action_id nat
  | SendToPlugin inspector_event exec_result

definition step :: "executor \<Rightarrow> event \<Rightarrow> plugin_state \<Rightarrow> plugin_state option" where
  "step ex e s =
     (case e of
        KeyDown ev \<Rightarrow> Some (onKeyDown ev s)
      | KeyUp ev \<Rightarrow> Some (onKeyUp ex ev s)
      | TimerFires t \<Rightarrow>
          (case map_of (pending s) t of
             None \<Rightarrow> None
           | Some ev \<Rightarrow> Some (timerCallback ex ev (clearTimeout t s)))
      | HostSetsState a n \<Rightarrow> Some (s\<lparr>hostState := (hostState s)(a := n)\<rparr>)
      | SendToPlugin ev r \<Rightarrow> Some (onSendToPlugin ev r s))"

fun steps :: "executor \<Rightarrow> event list \<Rightarrow> plugin_state \<Rightarrow> plugin_state option" where
  "steps ex [] s = Some s"
| "steps ex (e # es) s = (case step ex e s of None \<Rightarrow> None | Some s' \<Rightarrow> steps ex es s')"

text \<open>The object as constructed, before any event.\<close>

definition initial :: "plugin_state" where
  "initial = \<lparr>pressTimer = None, isLongPress = False, initialState = 0,
              pending = [], nextTimer = 0, hostState = (\<lambda>_. 0), trace = []\<rparr>"

section \<open>Notions used to state the properties\<close>

text \<open>Two platforms: one on which no call throws, one on which every call throws.\<close>

definition noFailure :: executor where
  "noFailure tr c = None"

definition alwaysFails :: executor where
  "alwaysFails tr c = Some ''boom''"

text \<open>A platform on which opening \<open>bad\<close> is rejected and every other call completes.\<close>

definition rejectsBad :: executor where
  "rejectsBad tr c = (if c = Open (ascii ''bad'') then Some ''rejected'' else None)"

text \<open>
  What the executor observes of a trace: the platform calls and the suspensions, without
  the console output and the messages to the host.
\<close>

fun isObserved :: "effect \<Rightarrow> bool" where
  "isObserved (Exec c) = True"
| "isObserved (Sleep ms) = True"
| "isObserved e = False"

definition observed :: "effect list \<Rightarrow> effect list" where
  "observed tr = filter isObserved tr"

text \<open>
  The step that each kind of command stands for: a hotkey is sent, a text is typed, a URL
  or a program is opened, a delay with a number suspends and one without a number is no
  step at all.
\<close>

definition platformCall :: "command \<Rightarrow> platform_call option" where
  "platformCall cmd =
     (case cmd_type cmd of
        Hotkey \<Rightarrow> Some (SimulateHotkey (cmd_value cmd))
      | Text \<Rightarrow> Some (SimulateTyping (cmd_value cmd))
      | Url \<Rightarrow> Some (Open (cmd_value cmd))
      | Run \<Rightarrow> Some (Open (cmd_value cmd))
      | Delay \<Rightarrow> None)"

definition expectedStep :: "command \<Rightarrow> effect list" where
  "expectedStep cmd =
     (case platformCall cmd of
        Some c \<Rightarrow> [Exec c]
      | None \<Rightarrow> (let ms = parseInt (cmd_value cmd) in if isNaN ms then [] else [Sleep ms]))"

definition expectedCalls :: "action_tree \<Rightarrow> effect list" where
  "expectedCalls tree = concat (map expectedStep tree)"

text \<open>The state writes of a trace.\<close>

fun isSetState :: "effect \<Rightarrow> bool" where
  "isSetState (SetState a n) = True"
| "isSetState e = False"

definition stateWrites :: "effect list \<Rightarrow> effect list" where
  "stateWrites tr = filter isSetState tr"

text \<open>
  The tree a guarded call runs: an absent tree runs as the empty one.
\<close>

definition treeOf :: "action_tree option \<Rightarrow> action_tree" where
  "treeOf t = (case t of None \<Rightarrow> [] | Some tree \<Rightarrow> tree)"

text \<open>
  Event sequences in which no press-down arrives while an earlier press is unreleased;
  the flag says whether a key is down.
\<close>

fun noOverlap :: "bool \<Rightarrow> event list \<Rightarrow> bool" where
  "noOverlap down [] = True"
| "noOverlap down (KeyDown ev # es) = (\<not> down \<and> noOverlap True es)"
| "noOverlap down (KeyUp ev # es) = noOverlap False es"
| "noOverlap down (e # es) = noOverlap down es"

text \<open>Changes of state that the host makes on its own.\<close>

fun isHostChange :: "event \<Rightarrow> bool" where
  "isHostChange (HostSetsState a n) = True"
| "isHostChange e = False"

text \<open>Key events, of whatever control, and timer firings.\<close>

fun isKeyEvent :: "event \<Rightarrow> bool" where
  "isKeyEvent (KeyDown ev) = True"
| "isKeyEvent (KeyUp ev) = True"
| "isKeyEvent e = False"

fun isTimerEvent :: "event \<Rightarrow> bool" where
  "isTimerEvent (TimerFires t) = True"
| "isTimerEvent e = False"

definition noKeyEvents :: "event list \<Rightarrow> bool" where
  "noKeyEvents es = list_all (\<lambda>e. \<not> isKeyEvent e) es"

definition noTimerEvents :: "event list \<Rightarrow> bool" where
  "noTimerEvents es = list_all (\<lambda>e. \<not> isTimerEvent e) es"

text \<open>Events and settings for the examples: two controls with the same settings.\<close>

definition exampleSettings :: switch_settings where
  "exampleSettings =
     \<lparr>tree0 = Some [\<lparr>cmd_type = Text, cmd_value = ascii ''zero''\<rparr>],
      tree1 = Some [\<lparr>cmd_type = Text, cmd_value = ascii ''one''\<rparr>],
      treeHold = Some [\<lparr>cmd_type = Url, cmd_value = ascii ''hold''\<rparr>]\<rparr>"

definition evA :: "nat \<Rightarrow> key_event" where
  "evA n = \<lparr>action = ''A'', state = Some n, settings = exampleSettings\<rparr>"

definition evB :: "nat \<Rightarrow> key_event" where
  "evB n = \<lparr>action = ''B'', state = Some n, settings = exampleSettings\<rparr>"

text \<open>The object before any event, on a host that keeps state \<open>n\<close> for every control.\<close>

definition startState :: "nat \<Rightarrow> plugin_state" where
  "startState n = initial\<lparr>hostState := (\<lambda>a. n)\<rparr>"

text \<open>
  The object before any event, on a host that keeps state 1 for control \<open>A\<close> and state 0
  for every other control.
\<close>

definition startStateAB :: "plugin_state" where
  "startStateAB = initial\<lparr>hostState := (\<lambda>a. if a = ''A'' then 1 else 0)\<rparr>"

text \<open>The pending timers of a state: the handle and the control of each.\<close>

definition pendingTimers :: "plugin_state \<Rightarrow> (timer \<times> action_id) list" where
  "pendingTimers s = map (\<lambda>p. (fst p, action (snd p))) (pending s)"

text \<open>The state the host has for a control.\<close>

definition hostStateOf :: "action_id \<Rightarrow> plugin_state \<Rightarrow> nat" where
  "hostStateOf a s = hostState s a"

text \<open>
  Timer handles are fresh: every pending timer has a handle below the next one. This holds
  of the object as constructed and is kept by every event.
\<close>

definition timersFresh :: "plugin_state \<Rightarrow> bool" where
  "timersFresh s \<longleftrightarrow> list_all (\<lambda>p. fst p < nextTimer s) (pending s)"

text \<open>
  What holds of the timers as long as presses do not overlap: none is pending, or a key
  is down and the one pending timer is the one whose handle is stored.
\<close>

definition timerInv :: "bool \<Rightarrow> plugin_state \<Rightarrow> bool" where
  "timerInv down s \<longleftrightarrow>
     pending s = [] \<or> (down \<and> (\<exists>t e. pending s = [(t, e)] \<and> pressTimer s = Some t))"

section \<open>Facts about the built-ins and the interpreter\<close>

lemma runIfPresent_treeOf:
  "runIfPresent ex t s = s\<lparr>trace := runActionTree ex (treeOf t) (trace s)\<rparr>"
  by (cases t) (auto simp: runIfPresent_def treeOf_def)

lemma runCommand_extends:
  "\<exists>added. runCommand ex cmd tr = tr @ added \<and> observed added = expectedStep cmd
     \<and> stateWrites added = []"
  by (cases "cmd_type cmd")
     (auto simp: runCommand_def dispatch_def call_def observed_def expectedStep_def
           stateWrites_def platformCall_def Let_def split: option.splits)

lemma runActionTree_extends:
  "\<exists>added. runActionTree ex tree tr = tr @ added \<and> observed added = expectedCalls tree
     \<and> stateWrites added = []"
proof (induction tree arbitrary: tr)
  case Nil
  show ?case by (simp add: observed_def expectedCalls_def stateWrites_def)
next
  case (Cons cmd tree)
  obtain a1 where a1: "runCommand ex cmd tr = tr @ a1" "observed a1 = expectedStep cmd"
      "stateWrites a1 = []"
    using runCommand_extends by blast
  obtain a2 where a2: "runActionTree ex tree (tr @ a1) = (tr @ a1) @ a2"
      "observed a2 = expectedCalls tree" "stateWrites a2 = []"
    using Cons.IH by blast
  show ?case
    using a1 a2
    by (intro exI[of _ "a1 @ a2"]) (simp add: observed_def expectedCalls_def stateWrites_def)
qed

lemma runCommand_failure:
  "platformCall cmd = Some c \<Longrightarrow> ex tr c = Some err \<Longrightarrow>
   runCommand ex cmd tr = tr @ [Exec c, ConsoleError (cmd_type cmd) err]"
  by (cases "cmd_type cmd") (auto simp: runCommand_def dispatch_def call_def platformCall_def)

lemma runCommand_delay:
  "cmd_type cmd = Delay \<Longrightarrow>
   runCommand ex cmd tr =
     (if isNaN (parseInt (cmd_value cmd)) then tr else tr @ [Sleep (parseInt (cmd_value cmd))])"
  by (simp add: runCommand_def dispatch_def Let_def)

lemma digit_not_white_space: "isDigit c \<Longrightarrow> \<not> isWhiteSpace c"
  unfolding isDigit_def isWhiteSpace_def by (auto simp: word_le_nat_alt)

lemma dropWhile_ws_digit: "isDigit c \<Longrightarrow> dropWhile isWhiteSpace (c # ds) = c # ds"
  by (simp add: digit_not_white_space)

lemma parseInt_digits:
  assumes "ds \<noteq> []" "list_all isDigit ds" "digitsToNat ds < 2 ^ 53"
  shows "parseInt ds = Integer (int (digitsToNat ds))"
    and "parseInt (0x2D # ds) = Integer (- int (digitsToNat ds))"
proof -
  obtain c r where ds: "ds = c # r" using assms(1) by (cases ds) auto
  have c: "isDigit c" using assms(2) ds by simp
  have tw: "takeWhile isDigit ds = ds" using assms(2) by (simp add: list_all_iff)
  have nosign: "c \<noteq> 0x2D" "c \<noteq> 0x2B" using c by (auto simp: isDigit_def)
  have td: "toDouble (digitsToNat ds) = Some (digitsToNat ds)"
    using assms(3) by (simp add: toDouble_def)
  show "parseInt ds = Integer (int (digitsToNat ds))"
    using tw td nosign dropWhile_ws_digit[OF c, of r] unfolding parseInt_def ds
    by (simp add: Let_def)
  have dw: "dropWhile isWhiteSpace (0x2D # ds) = 0x2D # ds"
    by (simp add: isWhiteSpace_def)
  show "parseInt (0x2D # ds) = Integer (- int (digitsToNat ds))"
    unfolding parseInt_def dw using assms(1) by (simp add: Let_def tw td)
qed

lemma parseInt_leading_white_space:
  "list_all isWhiteSpace ws \<Longrightarrow> parseInt (ws @ str) = parseInt str"
proof -
  assume "list_all isWhiteSpace ws"
  then have "dropWhile isWhiteSpace (ws @ str) = dropWhile isWhiteSpace str"
    by (intro dropWhile_append2) (simp add: list_all_iff)
  then show ?thesis by (simp add: parseInt_def)
qed

text \<open>Values beyond the integers that a double holds exactly, and white space beyond ASCII.\<close>

lemma parseInt_examples:
  "parseInt (ascii ''9007199254740993'') = Integer 9007199254740992"
  "parseInt (ascii ''9007199254740995'') = Integer 9007199254740996"
  "parseInt (0x00A0 # ascii ''42'') = Integer 42"
  "parseInt (ascii ''12abc'') = Integer 12"
  "parseInt (ascii ''-'') = NaN"
  by (simp_all add: ascii_def parseInt_def isWhiteSpace_def isDigit_def digitsToNat_def
        digitValue_def toDouble_def bitLength.simps Let_def)

lemma trim_append_white_space:
  assumes "list_all isWhiteSpace ws"
  shows "trim (p @ ws) = trim p"
proof (cases "list_all isWhiteSpace p")
  case True
  then have a: "dropWhile isWhiteSpace (p @ ws) = []" and b: "dropWhile isWhiteSpace p = []"
    using assms by (auto simp: list_all_iff)
  show ?thesis unfolding trim_def a b ..
next
  case False
  then obtain x where "x \<in> set p" "\<not> isWhiteSpace x" by (auto simp: list_all_iff)
  then have "dropWhile isWhiteSpace (p @ ws) = dropWhile isWhiteSpace p @ ws"
    by (rule dropWhile_append1)
  moreover have "dropWhile isWhiteSpace (rev ws @ ys) = dropWhile isWhiteSpace ys" for ys
    using assms by (intro dropWhile_append2) (simp add: list_all_iff)
  ultimately show ?thesis by (simp add: trim_def)
qed

lemma trim_fixed:
  "trim p = p \<longleftrightarrow> p = [] \<or> (\<not> isWhiteSpace (hd p) \<and> \<not> isWhiteSpace (last p))"
proof (cases p)
  case Nil
  then show ?thesis by (simp add: trim_def)
next
  case (Cons c r)
  have len: "length (trim p) \<le> length (dropWhile isWhiteSpace p)"
    unfolding trim_def by (metis length_dropWhile_le length_rev)
  show ?thesis
  proof (cases "isWhiteSpace (hd p)")
    case True
    then have "length (dropWhile isWhiteSpace p) < length p"
      using Cons by (simp add: le_imp_less_Suc length_dropWhile_le)
    with len have "trim p \<noteq> p" by auto
    with True Cons show ?thesis by simp
  next
    case False
    then have dw: "dropWhile isWhiteSpace p = p" using Cons by simp
    show ?thesis
    proof (cases "isWhiteSpace (last p)")
      case True
      have "rev p = last p # rev (butlast p)"
        using Cons
        by (metis append_butlast_last_id list.distinct(1) rev_append rev_singleton_conv
              append_Cons append_Nil)
      then have "length (dropWhile isWhiteSpace (rev p)) < length p"
        using True
        by (metis dropWhile.simps(2) le_imp_less_Suc length_Cons length_dropWhile_le length_rev)
      then have "trim p \<noteq> p" unfolding trim_def dw by (metis length_rev less_irrefl)
      with True Cons show ?thesis by simp
    next
      case nl: False
      obtain y ys where r: "rev p = y # ys" using Cons by (cases "rev p") auto
      then have "y = last p" using Cons by (metis list.sel(1) hd_rev)
      then have "dropWhile isWhiteSpace (y # ys) = y # ys" using nl by simp
      then have "dropWhile isWhiteSpace (rev p) = rev p" unfolding r .
      then have "trim p = p" unfolding trim_def dw by simp
      with False nl show ?thesis by simp
    qed
  qed
qed

section \<open>Facts about the handlers\<close>

lemma stateWrites_runActionTree:
  "stateWrites (runActionTree ex tree tr) = stateWrites tr"
  using runActionTree_extends[of ex tree tr] by (auto simp: stateWrites_def)

lemma stateWrites_append: "stateWrites (xs @ ys) = stateWrites xs @ stateWrites ys"
  by (simp add: stateWrites_def)

lemmas handler_defs = onKeyDown_def onKeyUp_def clearTimeout_def timerCallback_def
  executeHold_def executeToggle_def setState_def runIfPresent_treeOf Let_def

lemma steps_append:
  "steps ex (es @ fs) s = (case steps ex es s of None \<Rightarrow> None | Some s' \<Rightarrow> steps ex fs s')"
  by (induction es arbitrary: s) (auto split: option.splits)

lemma steps_hostChanges:
  "list_all isHostChange hs \<Longrightarrow> \<exists>h. steps ex hs s = Some (s\<lparr>hostState := h\<rparr>)"
proof (induction hs arbitrary: s)
  case Nil
  have "s = s\<lparr>hostState := hostState s\<rparr>" by simp
  then show ?case by (metis steps.simps(1))
next
  case (Cons e hs)
  then obtain a n where e: "e = HostSetsState a n" by (cases e) auto
  from Cons obtain h where "steps ex hs (s\<lparr>hostState := (hostState s)(a := n)\<rparr>)
      = Some (s\<lparr>hostState := (hostState s)(a := n)\<rparr>\<lparr>hostState := h\<rparr>)"
    by fastforce
  then show ?case by (auto simp: e step_def)
qed

lemma fresh_filter:
  "timersFresh s \<Longrightarrow> filter (\<lambda>p. fst p \<noteq> nextTimer s) (pending s) = pending s"
  by (auto simp: timersFresh_def list_all_iff intro!: filter_True)

lemma own_timer_gone:
  "timersFresh s \<Longrightarrow> map_of (pending s) (nextTimer s) = None"
  by (auto simp: timersFresh_def list_all_iff map_of_eq_None_iff)

lemma timersFresh_initial: "timersFresh initial"
  by (simp add: timersFresh_def initial_def)

lemma timersFresh_step:
  assumes "timersFresh s" "step ex e s = Some s'"
  shows "timersFresh s'"
proof (cases e)
  case (KeyDown ev)
  then show ?thesis
    using assms by (fastforce simp: step_def onKeyDown_def timersFresh_def list_all_iff)
next
  case (KeyUp ev)
  then show ?thesis
    using assms
    by (fastforce simp: step_def handler_defs timersFresh_def list_all_iff
          split: option.splits if_splits)
next
  case (TimerFires t)
  then show ?thesis
    using assms
    by (fastforce simp: step_def handler_defs timersFresh_def list_all_iff
          split: option.splits)
next
  case (HostSetsState a n)
  then show ?thesis using assms by (auto simp: step_def timersFresh_def)
next
  case (SendToPlugin ev r)
  then show ?thesis
    using assms
    by (auto simp: step_def timersFresh_def onSendToPlugin_def Let_def split: if_splits)
qed

lemma timersFresh_steps:
  "timersFresh s \<Longrightarrow> steps ex es s = Some s' \<Longrightarrow> timersFresh s'"
proof (induction es arbitrary: s)
  case Nil
  then show ?case by simp
next
  case (Cons e es)
  then obtain s1 where "step ex e s = Some s1" "steps ex es s1 = Some s'"
    by (auto split: option.splits)
  then show ?case using Cons.IH Cons.prems(1) timersFresh_step by blast
qed

text \<open>A press-down and its release with nothing in between.\<close>

lemma short_cycle:
  "steps ex [KeyDown d, KeyUp u] s =
     Some (s\<lparr>pressTimer := None, isLongPress := False, initialState := payloadState d,
             pending := filter (\<lambda>p. fst p \<noteq> nextTimer s) (pending s),
             nextTimer := Suc (nextTimer s),
             hostState := (hostState s)(action u := (if payloadState u = 0 then 1 else 0)),
             trace := runActionTree ex
                        (treeOf (if payloadState u = 0 then tree0 (settings u)
                                 else tree1 (settings u)))
                        (trace s)
                      @ [SetState (action u) (if payloadState u = 0 then 1 else 0)]\<rparr>)"
  by (simp add: step_def handler_defs)

text \<open>A press-down, its timer, and the release.\<close>

lemma hold_cycle:
  "timersFresh s \<Longrightarrow>
   steps ex [KeyDown d, TimerFires (nextTimer s), KeyUp u] s =
     Some (s\<lparr>pressTimer := None, isLongPress := True, initialState := payloadState d,
             nextTimer := Suc (nextTimer s),
             hostState := (hostState s)(action u := payloadState d),
             trace := runActionTree ex (treeOf (treeHold (settings d))) (trace s)
                      @ [SetState (action u) (payloadState d)]\<rparr>)"
  by (simp add: step_def handler_defs map_add_def own_timer_gone fresh_filter)

text \<open>The timer of a press fires at most once.\<close>

lemma fired_twice:
  "timersFresh s \<Longrightarrow>
   steps ex [KeyDown d, TimerFires (nextTimer s), TimerFires (nextTimer s)] s = None"
  by (simp add: step_def handler_defs map_add_def fresh_filter own_timer_gone)

text \<open>The state after a press-down, host changes, the timer and more host changes.\<close>

lemma hold_prefix:
  assumes "timersFresh s" "list_all isHostChange hs1" "list_all isHostChange hs2"
  shows "\<exists>h. steps ex ([KeyDown d] @ hs1 @ [TimerFires (nextTimer s)] @ hs2) s =
     Some (s\<lparr>pressTimer := Some (nextTimer s), isLongPress := True,
             initialState := payloadState d, nextTimer := Suc (nextTimer s),
             hostState := h,
             trace := runActionTree ex (treeOf (treeHold (settings d))) (trace s)\<rparr>)"
proof -
  let ?s1 = "onKeyDown d s"
  obtain h1 where h1: "steps ex hs1 ?s1 = Some (?s1\<lparr>hostState := h1\<rparr>)"
    using steps_hostChanges[OF assms(2)] by blast
  let ?s2 = "?s1\<lparr>hostState := h1\<rparr>"
  have fire: "step ex (TimerFires (nextTimer s)) ?s2 =
      Some (timerCallback ex d (clearTimeout (nextTimer s) ?s2))"
    using assms(1) by (simp add: step_def onKeyDown_def map_add_def own_timer_gone)
  let ?s3 = "timerCallback ex d (clearTimeout (nextTimer s) ?s2)"
  obtain h2 where h2: "steps ex hs2 ?s3 = Some (?s3\<lparr>hostState := h2\<rparr>)"
    using steps_hostChanges[OF assms(3)] by blast
  have a: "steps ex [KeyDown d] s = Some ?s1" by (simp add: step_def)
  have b: "steps ex ([KeyDown d] @ hs1) s = Some ?s2"
    using steps_append[of ex "[KeyDown d]" hs1 s] a h1 by simp
  have c: "steps ex (([KeyDown d] @ hs1) @ [TimerFires (nextTimer s)]) s = Some ?s3"
    using steps_append[of ex "[KeyDown d] @ hs1" "[TimerFires (nextTimer s)]" s] b fire by simp
  have "steps ex ((([KeyDown d] @ hs1) @ [TimerFires (nextTimer s)]) @ hs2) s
      = Some (?s3\<lparr>hostState := h2\<rparr>)"
    using steps_append[of ex "([KeyDown d] @ hs1) @ [TimerFires (nextTimer s)]" hs2 s] c h2
    by simp
  then have X: "steps ex ([KeyDown d] @ hs1 @ [TimerFires (nextTimer s)] @ hs2) s
      = Some (?s3\<lparr>hostState := h2\<rparr>)"
    by simp
  have Y: "?s3\<lparr>hostState := h2\<rparr> =
     s\<lparr>pressTimer := Some (nextTimer s), isLongPress := True, initialState := payloadState d,
       nextTimer := Suc (nextTimer s), hostState := h2,
       trace := runActionTree ex (treeOf (treeHold (settings d))) (trace s)\<rparr>"
    using assms(1) by (simp add: handler_defs fresh_filter)
  show ?thesis by (rule exI[of _ h2]) (simp only: X Y)
qed

text \<open>The timer invariant is kept by every event of a sequence without overlapping presses.\<close>

lemma timerInv_step:
  assumes "timerInv down s" "noOverlap down (e # es)" "step ex e s = Some s'"
  shows "\<exists>down'. timerInv down' s' \<and> noOverlap down' es"
proof (cases e)
  case (KeyDown ev)
  then have "\<not> down" "noOverlap True es" using assms(2) by auto
  moreover have "pending s = []" using assms(1) \<open>\<not> down\<close> by (auto simp: timerInv_def)
  ultimately show ?thesis
    using assms(3) KeyDown
    by (intro exI[of _ True]) (auto simp: step_def onKeyDown_def timerInv_def)
next
  case (KeyUp ev)
  then have "noOverlap False es" using assms(2) by simp
  moreover have "pending s' = []"
    using assms(1,3) KeyUp
    by (auto simp: step_def timerInv_def handler_defs split: option.splits)
  ultimately show ?thesis by (intro exI[of _ False]) (simp add: timerInv_def)
next
  case (TimerFires t)
  then have "noOverlap down es" using assms(2) by simp
  moreover have "pending s' = []"
    using assms(1,3) TimerFires
    by (auto simp: step_def timerInv_def handler_defs split: option.splits if_splits)
  ultimately show ?thesis by (intro exI[of _ down]) (simp add: timerInv_def)
next
  case (HostSetsState a n)
  then show ?thesis
    using assms by (intro exI[of _ down]) (auto simp: step_def timerInv_def)
next
  case (SendToPlugin ev r)
  then show ?thesis
    using assms
    by (intro exI[of _ down])
       (auto simp: step_def timerInv_def onSendToPlugin_def Let_def split: if_splits)
qed

lemma timerInv_steps:
  "timerInv down s \<Longrightarrow> noOverlap down es \<Longrightarrow> steps ex es s = Some s' \<Longrightarrow>
   \<exists>down'. timerInv down' s'"
proof (induction es arbitrary: down s)
  case Nil
  then show ?case by auto
next
  case (Cons e es)
  then obtain s1 where s1: "step ex e s = Some s1" "steps ex es s1 = Some s'"
    by (auto split: option.splits)
  obtain down1 where "timerInv down1 s1" "noOverlap down1 es"
    using timerInv_step[OF Cons.prems(1,2) s1(1)] by blast
  then show ?case using Cons.IH s1(2) by blast
qed

lemma noOverlap_take: "noOverlap down es \<Longrightarrow> noOverlap down (take n es)"
proof (induction es arbitrary: down n)
  case Nil
  then show ?case by simp
next
  case (Cons e es)
  show ?case
  proof (cases n)
    case 0
    then show ?thesis by simp
  next
    case (Suc m)
    then show ?thesis using Cons by (cases e) auto
  qed
qed


lemma observed_runActionTree:
  "observed (runActionTree ex tree tr) = observed tr @ expectedCalls tree"
  using runActionTree_extends[of ex tree tr] by (auto simp: observed_def)

lemma observed_append: "observed (xs @ ys) = observed xs @ observed ys"
  by (simp add: observed_def)

lemma noTimerEvents_filter: "noTimerEvents es \<longleftrightarrow> filter isTimerEvent es = []"
  by (simp add: noTimerEvents_def list_all_iff filter_empty_conv)

text \<open>What a release does, by the flag it finds.\<close>

lemma keyUp_effect:
  "pending (onKeyUp ex u s) =
     (case pressTimer s of None \<Rightarrow> pending s
      | Some t \<Rightarrow> filter (\<lambda>p. fst p \<noteq> t) (pending s))"
  "isLongPress s \<Longrightarrow>
     trace (onKeyUp ex u s) = trace s @ [SetState (action u) (initialState s)]
     \<and> hostState (onKeyUp ex u s) = (hostState s)(action u := initialState s)"
  "\<not> isLongPress s \<Longrightarrow>
     trace (onKeyUp ex u s) =
       runActionTree ex
         (treeOf (if payloadState u = 0 then tree0 (settings u) else tree1 (settings u)))
         (trace s)
       @ [SetState (action u) (if payloadState u = 0 then 1 else 0)]
     \<and> hostState (onKeyUp ex u s) =
         (hostState s)(action u := (if payloadState u = 0 then 1 else 0))"
  by (auto simp: handler_defs split: option.splits)

text \<open>An event that is no key event leaves the captured state and the stored handle.\<close>

lemma nonkey_step:
  assumes "\<not> isKeyEvent e" "step ex e s = Some s'"
  shows "initialState s' = initialState s \<and> pressTimer s' = pressTimer s
     \<and> nextTimer s' = nextTimer s
     \<and> stateWrites (trace s') = stateWrites (trace s)
     \<and> (isLongPress s' \<longleftrightarrow> isLongPress s \<or> isTimerEvent e)"
proof (cases e)
  case (TimerFires t)
  then show ?thesis
    using assms(2)
    by (auto simp: step_def handler_defs stateWrites_runActionTree split: option.splits)
next
  case (HostSetsState a n)
  then show ?thesis using assms(2) by (auto simp: step_def)
next
  case (SendToPlugin ev r)
  then show ?thesis
    using assms(2)
    by (auto simp: step_def onSendToPlugin_def Let_def stateWrites_def split: if_splits)
qed (use assms(1) in auto)

lemma nonkey_steps:
  "noKeyEvents mid \<Longrightarrow> steps ex mid s = Some s' \<Longrightarrow>
   initialState s' = initialState s \<and> pressTimer s' = pressTimer s
     \<and> nextTimer s' = nextTimer s
     \<and> stateWrites (trace s') = stateWrites (trace s)
     \<and> (isLongPress s' \<longleftrightarrow> isLongPress s \<or> \<not> noTimerEvents mid)"
proof (induction mid arbitrary: s)
  case Nil
  then show ?case by (simp add: noTimerEvents_def)
next
  case (Cons e mid)
  then obtain s1 where s1: "step ex e s = Some s1" "steps ex mid s1 = Some s'"
    by (auto split: option.splits)
  have e: "\<not> isKeyEvent e" and mid: "noKeyEvents mid"
    using Cons.prems(1) by (simp_all add: noKeyEvents_def)
  note a = nonkey_step[OF e s1(1)]
  note b = Cons.IH[OF mid s1(2)]
  show ?case using a b by (auto simp: noTimerEvents_def)
qed

text \<open>Events that are neither key events nor timer firings are always possible.\<close>

lemma quiet_step:
  assumes "\<not> isKeyEvent e" "\<not> isTimerEvent e"
  shows "\<exists>s'. step ex e s = Some s' \<and> pending s' = pending s
     \<and> isLongPress s' = isLongPress s
     \<and> observed (trace s') = observed (trace s)"
proof (cases e)
  case (HostSetsState a n)
  then show ?thesis by (simp add: step_def)
next
  case (SendToPlugin ev r)
  then show ?thesis
    by (auto simp: step_def onSendToPlugin_def Let_def observed_def)
qed (use assms in auto)

lemma quiet_steps:
  "noKeyEvents mid \<Longrightarrow> noTimerEvents mid \<Longrightarrow>
   \<exists>s'. steps ex mid s = Some s' \<and> pending s' = pending s
     \<and> isLongPress s' = isLongPress s
     \<and> observed (trace s') = observed (trace s)"
proof (induction mid arbitrary: s)
  case Nil
  then show ?case by simp
next
  case (Cons e mid)
  have e: "\<not> isKeyEvent e" "\<not> isTimerEvent e" and mid: "noKeyEvents mid" "noTimerEvents mid"
    using Cons.prems by (simp_all add: noKeyEvents_def noTimerEvents_def)
  obtain s1 where s1: "step ex e s = Some s1" "pending s1 = pending s"
      "isLongPress s1 = isLongPress s" "observed (trace s1) = observed (trace s)"
    using quiet_step[OF e] by blast
  obtain s' where "steps ex mid s1 = Some s'" "pending s' = pending s1"
      "isLongPress s' = isLongPress s1" "observed (trace s') = observed (trace s1)"
    using Cons.IH[OF mid] by blast
  then show ?case using s1 by simp
qed

text \<open>With no timer pending, no timer fires before the next key event.\<close>

lemma idle_steps:
  "pending s = [] \<Longrightarrow> noKeyEvents mid \<Longrightarrow> steps ex mid s = Some s' \<Longrightarrow>
   noTimerEvents mid \<and> pending s' = [] \<and> observed (trace s') = observed (trace s)"
proof (induction mid arbitrary: s)
  case Nil
  then show ?case by (simp add: noTimerEvents_def)
next
  case (Cons e mid)
  then obtain s1 where s1: "step ex e s = Some s1" "steps ex mid s1 = Some s'"
    by (auto split: option.splits)
  have e: "\<not> isKeyEvent e" and mid: "noKeyEvents mid"
    using Cons.prems(2) by (simp_all add: noKeyEvents_def)
  have nt: "\<not> isTimerEvent e"
    using Cons.prems(1) s1(1) by (cases e) (auto simp: step_def)
  obtain s1' where "step ex e s = Some s1'" "pending s1' = pending s"
      "observed (trace s1') = observed (trace s)"
    using quiet_step[OF e nt] by blast
  then have "pending s1 = []" "observed (trace s1) = observed (trace s)"
    using s1(1) Cons.prems(1) by auto
  then show ?case using Cons.IH[OF _ mid s1(2)] nt by (simp add: noTimerEvents_def)
qed

text \<open>
  With one timer pending, either it does not fire before the next key event, or it fires
  once, runs the hold tree of its press, and nothing else fires.
\<close>

lemma armed_steps:
  "pending s = [(t, d)] \<Longrightarrow> noKeyEvents mid \<Longrightarrow> steps ex mid s = Some s' \<Longrightarrow>
   (filter isTimerEvent mid = [] \<and> pending s' = [(t, d)]
      \<and> observed (trace s') = observed (trace s))
   \<or> (filter isTimerEvent mid = [TimerFires t] \<and> pending s' = []
      \<and> observed (trace s') =
          observed (trace s) @ expectedCalls (treeOf (treeHold (settings d))))"
proof (induction mid arbitrary: s)
  case Nil
  then show ?case by simp
next
  case (Cons e mid)
  then obtain s1 where s1: "step ex e s = Some s1" "steps ex mid s1 = Some s'"
    by (auto split: option.splits)
  have e: "\<not> isKeyEvent e" and mid: "noKeyEvents mid"
    using Cons.prems(2) by (simp_all add: noKeyEvents_def)
  show ?case
  proof (cases "isTimerEvent e")
    case True
    then obtain t' where t': "e = TimerFires t'" by (cases e) auto
    then have tt: "t' = t"
      using s1(1) Cons.prems(1) by (auto simp: step_def split: option.splits if_splits)
    have p1: "pending s1 = []"
      and o1: "observed (trace s1) =
                 observed (trace s) @ expectedCalls (treeOf (treeHold (settings d)))"
      using s1(1) Cons.prems(1) unfolding t' tt
      by (auto simp: step_def handler_defs observed_runActionTree)
    from idle_steps[OF p1 mid s1(2)]
    have "filter isTimerEvent mid = []" "pending s' = []"
        "observed (trace s') = observed (trace s1)"
      by (simp_all add: noTimerEvents_filter)
    then show ?thesis using o1 t' tt by simp
  next
    case False
    obtain s1' where "step ex e s = Some s1'" "pending s1' = pending s"
        "observed (trace s1') = observed (trace s)"
      using quiet_step[OF e False] by blast
    then have "pending s1 = [(t, d)]" "observed (trace s1) = observed (trace s)"
      using s1(1) Cons.prems(1) by auto
    then show ?thesis using Cons.IH[OF _ mid s1(2)] False by simp
  qed
qed

lemma cycle_split:
  "steps ex (KeyDown d # mid @ [KeyUp u]) s =
     (case steps ex mid (onKeyDown d s) of
        None \<Rightarrow> None
      | Some s2 \<Rightarrow> Some (onKeyUp ex u s2))"
  by (simp add: step_def steps_append split: option.splits)

lemma projections_of_write [simp]:
  "observed [SetState a n] = []"
  "stateWrites [SetState a n] = [SetState a n]"
  by (simp_all add: observed_def stateWrites_def)

lemma onKeyDown_fields:
  "pressTimer (onKeyDown d s) = Some (nextTimer s)"
  "isLongPress (onKeyDown d s) = False"
  "initialState (onKeyDown d s) = payloadState d"
  "pending (onKeyDown d s) = pending s @ [(nextTimer s, d)]"
  "trace (onKeyDown d s) = trace s"
  "hostState (onKeyDown d s) = hostState s"
  by (simp_all add: onKeyDown_def)

section \<open>Short presses\<close>

text \<open>
  C1, as the code has it. Take a press-down and its release with no key event and no timer
  firing in between; the host may change states and the inspector may send messages. The
  release makes the platform calls of the tree chosen by the state that the release event
  reports, \<open>tree0\<close> when that state is 0 or absent and \<open>tree1\<close> otherwise, and the cycle
  has exactly one state write, with 1 when the reported state was 0 and with 0 otherwise;
  the host has that state afterwards. When nothing but host changes lies in between, the
  release adds the run of the tree and then the state write to the trace.
\<close>

theorem short_press_runs_tree_of_release_state:
  assumes "noKeyEvents mid" and "noTimerEvents mid"
  shows "\<exists>s'. steps ex (KeyDown d # mid @ [KeyUp u]) s = Some s'
     \<and> observed (trace s') =
         observed (trace s)
         @ expectedCalls
             (treeOf (if payloadState u = 0 then tree0 (settings u) else tree1 (settings u)))
     \<and> stateWrites (trace s') =
         stateWrites (trace s) @ [SetState (action u) (if payloadState u = 0 then 1 else 0)]
     \<and> hostState s' (action u) = (if payloadState u = 0 then 1 else 0)
     \<and> (list_all isHostChange mid \<longrightarrow>
          trace s' =
            runActionTree ex
              (treeOf (if payloadState u = 0 then tree0 (settings u) else tree1 (settings u)))
              (trace s)
            @ [SetState (action u) (if payloadState u = 0 then 1 else 0)])"
proof -
  let ?s1 = "onKeyDown d s"
  obtain s2 where s2: "steps ex mid ?s1 = Some s2" "isLongPress s2 = isLongPress ?s1"
      "observed (trace s2) = observed (trace ?s1)"
    using quiet_steps[OF assms] by blast
  have flag: "\<not> isLongPress s2" using s2(2) by (simp add: onKeyDown_fields)
  have sw: "stateWrites (trace s2) = stateWrites (trace s)"
    using nonkey_steps[OF assms(1) s2(1)] by (simp add: onKeyDown_fields)
  have ob: "observed (trace s2) = observed (trace s)"
    using s2(3) by (simp add: onKeyDown_fields)
  have run: "steps ex (KeyDown d # mid @ [KeyUp u]) s = Some (onKeyUp ex u s2)"
    unfolding cycle_split s2(1) by simp
  note eff = keyUp_effect(3)[OF flag, of ex u]
  have host: "list_all isHostChange mid \<Longrightarrow> trace s2 = trace s"
  proof -
    assume "list_all isHostChange mid"
    then obtain h where "steps ex mid ?s1 = Some (?s1\<lparr>hostState := h\<rparr>)"
      using steps_hostChanges by blast
    then show ?thesis using s2(1) by (auto simp: onKeyDown_fields)
  qed
  show ?thesis
    unfolding run using eff ob sw host
    by (simp add: observed_append observed_runActionTree stateWrites_append
          stateWrites_runActionTree)
qed

theorem short_press_runs_tree_of_release_state_witness:
  "noKeyEvents [HostSetsState ''B'' 1] \<and> noTimerEvents [HostSetsState ''B'' 1]
   \<and> list_all isHostChange [HostSetsState ''B'' 1]
   \<and> map_option trace
        (steps noFailure [KeyDown (evA 1), HostSetsState ''B'' 1, KeyUp (evA 1)] initial)
     = Some [Exec (SimulateTyping (ascii ''one'')), SetState ''A'' 0]"
proof -
  have k: "noKeyEvents [HostSetsState ''B'' 1]" by (simp add: noKeyEvents_def)
  have t: "noTimerEvents [HostSetsState ''B'' 1]" by (simp add: noTimerEvents_def)
  have h: "list_all isHostChange [HostSetsState ''B'' 1]" by simp
  from short_press_runs_tree_of_release_state [OF k t, of noFailure "evA 1" "evA 1" initial]
  obtain s' where
    "steps noFailure (KeyDown (evA 1) # [HostSetsState ''B'' 1] @ [KeyUp (evA 1)]) initial
       = Some s'"
    "trace s' =
       runActionTree noFailure
         (treeOf (if payloadState (evA 1) = 0 then tree0 (settings (evA 1))
                  else tree1 (settings (evA 1))))
         (trace initial)
       @ [SetState (action (evA 1)) (if payloadState (evA 1) = 0 then 1 else 0)]"
    using h by blast
  then show ?thesis
    using k t
    by (simp add: evA_def payloadState_def exampleSettings_def treeOf_def initial_def
          runCommand_def dispatch_def call_def noFailure_def)
qed

text \<open>
  With state 0 at the press-down and at the release, the short press runs \<open>tree0\<close>, and
  what it does is not what \<open>tree1\<close> would have done. With the same captured state and
  state 1 at the release, it runs \<open>tree1\<close> and writes 0: the tree and the written state
  follow the state of the release event. And when \<open>A\<close> is pressed, \<open>B\<close> is pressed, the
  timer of \<open>A\<close> fires and \<open>B\<close> is released before its own timer, the release of \<open>B\<close>
  runs neither \<open>tree0\<close> nor \<open>tree1\<close> and writes the captured state instead of flipping.
\<close>

theorem short_press_tree_counterexample:
  "initialState (onKeyDown (evA 0) initial) = 0
   \<and> map_option trace (steps noFailure [KeyDown (evA 0), KeyUp (evA 0)] initial)
       = Some (runActionTree noFailure (treeOf (tree0 (settings (evA 0)))) []
               @ [SetState ''A'' 1])
   \<and> map_option trace (steps noFailure [KeyDown (evA 0), KeyUp (evA 0)] initial)
       \<noteq> Some (runActionTree noFailure (treeOf (tree1 (settings (evA 0)))) []
               @ [SetState ''A'' 1])
   \<and> map_option trace (steps noFailure [KeyDown (evA 0), KeyUp (evA 1)] initial)
       = Some (runActionTree noFailure (treeOf (tree1 (settings (evA 1)))) []
               @ [SetState ''A'' 0])
   \<and> map_option trace
        (steps noFailure [KeyDown (evA 0), KeyDown (evB 0), TimerFires 0, KeyUp (evB 0)]
           initial)
       = Some [Exec (Open (ascii ''hold'')), SetState ''B'' 0]"
  by (simp add: step_def handler_defs evA_def evB_def payloadState_def exampleSettings_def
        treeOf_def initial_def runCommand_def dispatch_def call_def noFailure_def ascii_def)

section \<open>Hold cycles\<close>

text \<open>
  C2, as the code has it. Take a press-down and its release on the same control, with no
  key event of any control in between and at least one timer firing; the host may change
  states on its own at any point. Whenever the events can happen in that order, the
  release writes the state captured at the press-down, whatever the hold tree and the
  platform did; that write is the only state write of the cycle, and the host has the
  captured state for the control afterwards. When the press-down carried the state the
  host had for the control, that is the state from before the press. Such cycles exist
  from every state with fresh timer handles: the timer of the press can fire between the
  press-down and the release.
\<close>

theorem hold_cycle_restores_state:
  "(noKeyEvents mid \<and> \<not> noTimerEvents mid \<and> action u = action d
      \<and> steps ex (KeyDown d # mid @ [KeyUp u]) s = Some s' \<longrightarrow>
        stateWrites (trace s') =
          stateWrites (trace s) @ [SetState (action d) (payloadState d)]
        \<and> hostState s' (action d) = payloadState d
        \<and> (state d = Some (hostState s (action d)) \<longrightarrow>
             hostState s' (action d) = hostState s (action d)))
   \<and> (timersFresh s \<and> list_all isHostChange hs1 \<and> list_all isHostChange hs2 \<longrightarrow>
        (\<exists>s'. steps ex ([KeyDown d] @ hs1 @ [TimerFires (nextTimer s)] @ hs2 @ [KeyUp u]) s
                = Some s'))"
proof (intro conjI impI)
  assume a: "noKeyEvents mid \<and> \<not> noTimerEvents mid \<and> action u = action d
      \<and> steps ex (KeyDown d # mid @ [KeyUp u]) s = Some s'"
  then have "steps ex (KeyDown d # mid @ [KeyUp u]) s = Some s'" by blast
  then obtain s2 where s2: "steps ex mid (onKeyDown d s) = Some s2" and s': "s' = onKeyUp ex u s2"
    unfolding cycle_split by (auto split: option.splits)
  note f = nonkey_steps[OF _ s2]
  have flag: "isLongPress s2" using f a by simp
  have init: "initialState s2 = payloadState d"
    using f a by (simp add: onKeyDown_fields)
  have sw: "stateWrites (trace s2) = stateWrites (trace s)"
    using f a by (simp add: onKeyDown_fields)
  note eff = keyUp_effect(2)[OF flag, of ex u]
  show w: "stateWrites (trace s') =
          stateWrites (trace s) @ [SetState (action d) (payloadState d)]"
    using eff init sw a by (simp add: s' stateWrites_append)
  show h: "hostState s' (action d) = payloadState d"
    using eff init a by (simp add: s')
  assume "state d = Some (hostState s (action d))"
  then show "hostState s' (action d) = hostState s (action d)"
    using h by (simp add: payloadState_def)
next
  assume b: "timersFresh s \<and> list_all isHostChange hs1 \<and> list_all isHostChange hs2"
  then obtain h where h: "steps ex ([KeyDown d] @ hs1 @ [TimerFires (nextTimer s)] @ hs2) s =
     Some (s\<lparr>pressTimer := Some (nextTimer s), isLongPress := True,
             initialState := payloadState d, nextTimer := Suc (nextTimer s),
             hostState := h,
             trace := runActionTree ex (treeOf (treeHold (settings d))) (trace s)\<rparr>)"
    using hold_prefix by blast
  have split: "[KeyDown d] @ hs1 @ [TimerFires (nextTimer s)] @ hs2 @ [KeyUp u]
      = ([KeyDown d] @ hs1 @ [TimerFires (nextTimer s)] @ hs2) @ [KeyUp u]" by simp
  show "\<exists>s'. steps ex ([KeyDown d] @ hs1 @ [TimerFires (nextTimer s)] @ hs2 @ [KeyUp u]) s
                = Some s'"
    unfolding split steps_append[of ex _ "[KeyUp u]"] h by (simp add: step_def)
qed

text \<open>
  The host has state 1, the key is held, the host switches to 0 on its own, the platform
  fails the hold tree, and the release reports 0: the state is 1 again.
\<close>

theorem hold_cycle_restores_state_witness:
  "noKeyEvents [TimerFires 0, HostSetsState ''A'' 0]
   \<and> \<not> noTimerEvents [TimerFires 0, HostSetsState ''A'' 0]
   \<and> action (evA 0) = action (evA 1)
   \<and> state (evA 1) = Some (hostState (startState 1) (action (evA 1)))
   \<and> timersFresh (startState 1) \<and> list_all isHostChange [HostSetsState ''A'' 0]
   \<and> map_option (hostStateOf ''A'')
        (steps alwaysFails [KeyDown (evA 1), TimerFires 0, HostSetsState ''A'' 0, KeyUp (evA 0)]
           (startState 1)) = Some 1
   \<and> map_option (stateWrites \<circ> trace)
        (steps alwaysFails [KeyDown (evA 1), TimerFires 0, HostSetsState ''A'' 0, KeyUp (evA 0)]
           (startState 1)) = Some [SetState ''A'' 1]"
proof -
  let ?mid = "[TimerFires 0, HostSetsState ''A'' 0]"
  have k: "noKeyEvents ?mid" by (simp add: noKeyEvents_def)
  have t: "\<not> noTimerEvents ?mid" by (simp add: noTimerEvents_def)
  have st: "state (evA 1) = Some (hostState (startState 1) (action (evA 1)))"
    by (simp add: evA_def startState_def)
  have ac: "action (evA 0) = action (evA 1)" by (simp add: evA_def)
  have fr: "timersFresh (startState 1)" by (simp add: timersFresh_def startState_def initial_def)
  have nt: "nextTimer (startState 1) = 0" by (simp add: startState_def initial_def)
  have tr: "stateWrites (trace (startState 1)) = []"
    by (simp add: startState_def initial_def stateWrites_def)
  have hv: "hostState (startState 1) (action (evA 1)) = 1" by (simp add: startState_def)
  have pv: "payloadState (evA 1) = 1" by (simp add: payloadState_def evA_def)
  note w = hold_cycle_restores_state
             [of ?mid "evA 0" "evA 1" alwaysFails "startState 1" _ "[]" "[HostSetsState ''A'' 0]"]
  have "\<exists>s'. steps alwaysFails
           ([KeyDown (evA 1)] @ [] @ [TimerFires (nextTimer (startState 1))]
            @ [HostSetsState ''A'' 0] @ [KeyUp (evA 0)])
           (startState 1) = Some s'"
    by (rule w[THEN conjunct2, rule_format]) (use fr in simp)
  then obtain s' where
    s': "steps alwaysFails [KeyDown (evA 1), TimerFires 0, HostSetsState ''A'' 0, KeyUp (evA 0)]
           (startState 1) = Some s'"
    unfolding nt by auto
  then have "steps alwaysFails (KeyDown (evA 1) # ?mid @ [KeyUp (evA 0)]) (startState 1)
      = Some s'"
    by simp
  with w[of s', THEN conjunct1] k t st ac
  have "hostState s' (action (evA 1)) = 1"
    "stateWrites (trace s') = [SetState (action (evA 1)) 1]"
    using hv tr pv by auto
  then show ?thesis
    using k t st ac fr s' by (simp add: hostStateOf_def evA_def)
qed

text \<open>
  The host has state 1 for \<open>A\<close> and 0 for \<open>B\<close>. \<open>A\<close> is pressed, \<open>B\<close> is pressed, the
  timer of \<open>A\<close> fires, \<open>A\<close> is released: the release writes the state captured from \<open>B\<close>,
  and \<open>A\<close> goes from 1 to 0.
\<close>

theorem hold_cycle_overlap_counterexample:
  "hostStateOf ''A'' startStateAB = 1
   \<and> state (evA 1) = Some (hostState startStateAB (action (evA 1)))
   \<and> state (evB 0) = Some (hostState startStateAB (action (evB 0)))
   \<and> map_option (hostStateOf ''A'')
        (steps noFailure [KeyDown (evA 1), KeyDown (evB 0), TimerFires 0, KeyUp (evA 1)]
           startStateAB) = Some 0"
  by (simp add: step_def handler_defs evA_def evB_def payloadState_def startStateAB_def
        initial_def hostStateOf_def)

section \<open>One tree for each press\<close>

text \<open>
  C3, as the code has it. Take a press-down on a handler with no timer pending and its
  release, with no key event of any control in between. Whenever the events can happen in
  that order, one of two things is the case. Either no timer fires in between: then the
  platform calls of the cycle are those of the short-press tree, and its one state write
  flips the state. Or the timer of the press fires in between, once, and no other: then
  the platform calls of the cycle are those of the hold tree, and its one state write
  restores the captured state. After the release no timer is pending, so none can fire
  for this press. Both orders can happen.
\<close>

theorem one_tree_per_press_cycle:
  "(pending s = [] \<and> noKeyEvents mid \<and> steps ex (KeyDown d # mid @ [KeyUp u]) s = Some s' \<longrightarrow>
      (filter isTimerEvent mid = []
         \<and> observed (trace s') =
             observed (trace s)
             @ expectedCalls
                 (treeOf (if payloadState u = 0 then tree0 (settings u)
                          else tree1 (settings u)))
         \<and> stateWrites (trace s') =
             stateWrites (trace s)
             @ [SetState (action u) (if payloadState u = 0 then 1 else 0)]
       \<or> filter isTimerEvent mid = [TimerFires (nextTimer s)]
         \<and> observed (trace s') =
             observed (trace s) @ expectedCalls (treeOf (treeHold (settings d)))
         \<and> stateWrites (trace s') =
             stateWrites (trace s) @ [SetState (action u) (payloadState d)])
      \<and> pending s' = [])
   \<and> (pending s = [] \<longrightarrow>
        (\<exists>s'. steps ex [KeyDown d, KeyUp u] s = Some s')
        \<and> (\<exists>s'. steps ex [KeyDown d, TimerFires (nextTimer s), KeyUp u] s = Some s'))"
proof (intro conjI impI)
  assume a: "pending s = [] \<and> noKeyEvents mid
      \<and> steps ex (KeyDown d # mid @ [KeyUp u]) s = Some s'"
  then have "steps ex (KeyDown d # mid @ [KeyUp u]) s = Some s'" by blast
  then obtain s2 where s2: "steps ex mid (onKeyDown d s) = Some s2" and s': "s' = onKeyUp ex u s2"
    unfolding cycle_split by (auto split: option.splits)
  have mid: "noKeyEvents mid" using a by simp
  have p1: "pending (onKeyDown d s) = [(nextTimer s, d)]"
    using a by (simp add: onKeyDown_fields)
  note f = nonkey_steps[OF mid s2]
  have pt: "pressTimer s2 = Some (nextTimer s)" using f by (simp add: onKeyDown_fields)
  have init: "initialState s2 = payloadState d" using f by (simp add: onKeyDown_fields)
  have sw: "stateWrites (trace s2) = stateWrites (trace s)"
    using f by (simp add: onKeyDown_fields)
  have flag: "isLongPress s2 \<longleftrightarrow> filter isTimerEvent mid \<noteq> []"
    using f by (simp add: onKeyDown_fields noTimerEvents_filter)
  from armed_steps[OF p1 mid s2]
  consider (short) "filter isTimerEvent mid = []" "pending s2 = [(nextTimer s, d)]"
      "observed (trace s2) = observed (trace s)"
    | (hold) "filter isTimerEvent mid = [TimerFires (nextTimer s)]" "pending s2 = []"
      "observed (trace s2) =
         observed (trace s) @ expectedCalls (treeOf (treeHold (settings d)))"
    by (auto simp: onKeyDown_fields)
  then have main: "(filter isTimerEvent mid = []
         \<and> observed (trace s') =
             observed (trace s)
             @ expectedCalls
                 (treeOf (if payloadState u = 0 then tree0 (settings u)
                          else tree1 (settings u)))
         \<and> stateWrites (trace s') =
             stateWrites (trace s)
             @ [SetState (action u) (if payloadState u = 0 then 1 else 0)]
       \<or> filter isTimerEvent mid = [TimerFires (nextTimer s)]
         \<and> observed (trace s') =
             observed (trace s) @ expectedCalls (treeOf (treeHold (settings d)))
         \<and> stateWrites (trace s') =
             stateWrites (trace s) @ [SetState (action u) (payloadState d)])
      \<and> pending s' = []"
  proof cases
    case short
    then have nf: "\<not> isLongPress s2" using flag by simp
    note eff = keyUp_effect(3)[OF nf, of ex u]
    have "pending s' = []" using keyUp_effect(1)[of ex u s2] pt short(2) by (simp add: s')
    then show ?thesis
      using eff short(1,3) sw
      by (simp add: s' observed_append observed_runActionTree stateWrites_append
            stateWrites_runActionTree)
  next
    case hold
    then have fl: "isLongPress s2" using flag by simp
    note eff = keyUp_effect(2)[OF fl, of ex u]
    have "pending s' = []" using keyUp_effect(1)[of ex u s2] pt hold(2) by (simp add: s')
    then show ?thesis
      using eff hold(1,3) sw init
      by (simp add: s' observed_append stateWrites_append)
  qed
  from main show "filter isTimerEvent mid = []
         \<and> observed (trace s') =
             observed (trace s)
             @ expectedCalls
                 (treeOf (if payloadState u = 0 then tree0 (settings u)
                          else tree1 (settings u)))
         \<and> stateWrites (trace s') =
             stateWrites (trace s)
             @ [SetState (action u) (if payloadState u = 0 then 1 else 0)]
       \<or> filter isTimerEvent mid = [TimerFires (nextTimer s)]
         \<and> observed (trace s') =
             observed (trace s) @ expectedCalls (treeOf (treeHold (settings d)))
         \<and> stateWrites (trace s') =
             stateWrites (trace s) @ [SetState (action u) (payloadState d)]"
    by blast
  from main show "pending s' = []" by blast
next
  assume "pending s = []"
  show "\<exists>s'. steps ex [KeyDown d, KeyUp u] s = Some s'"
    unfolding short_cycle by simp
next
  assume "pending s = []"
  then have "timersFresh s" by (simp add: timersFresh_def)
  then show "\<exists>s'. steps ex [KeyDown d, TimerFires (nextTimer s), KeyUp u] s = Some s'"
    using hold_cycle by blast
qed

theorem one_tree_per_press_cycle_witness:
  "pending initial = [] \<and> noKeyEvents [] \<and> noKeyEvents [TimerFires 0]
   \<and> map_option trace (steps noFailure [KeyDown (evA 0), KeyUp (evA 0)] initial)
       = Some [Exec (SimulateTyping (ascii ''zero'')), SetState ''A'' 1]
   \<and> map_option trace (steps noFailure [KeyDown (evA 0), TimerFires 0, KeyUp (evA 1)] initial)
       = Some [Exec (Open (ascii ''hold'')), SetState ''A'' 0]
   \<and> steps noFailure [KeyDown (evA 0), TimerFires 0, TimerFires 0, KeyUp (evA 1)] initial
       = None"
proof -
  have p: "pending initial = []" by (simp add: initial_def)
  have k0: "noKeyEvents []" and k1: "noKeyEvents [TimerFires 0]"
    and k2: "noKeyEvents [TimerFires 0, TimerFires 0]"
    by (simp_all add: noKeyEvents_def)
  have n: "nextTimer initial = 0" by (simp add: initial_def)
  note w = one_tree_per_press_cycle
  have short: "map_option trace (steps noFailure [KeyDown (evA 0), KeyUp (evA 0)] initial)
       = Some [Exec (SimulateTyping (ascii ''zero'')), SetState ''A'' 1]"
    using w[of initial "[]" noFailure "evA 0" "evA 0", THEN conjunct2] p
    by (simp add: step_def handler_defs evA_def payloadState_def exampleSettings_def
          treeOf_def initial_def runCommand_def dispatch_def call_def noFailure_def)
  have hold: "map_option trace
        (steps noFailure [KeyDown (evA 0), TimerFires 0, KeyUp (evA 1)] initial)
       = Some [Exec (Open (ascii ''hold'')), SetState ''A'' 0]"
    using w[of initial "[TimerFires 0]" noFailure "evA 0" "evA 1", THEN conjunct2] p
    by (simp add: step_def handler_defs evA_def payloadState_def exampleSettings_def
          treeOf_def initial_def runCommand_def dispatch_def call_def noFailure_def)
  have twice:
    "steps noFailure [KeyDown (evA 0), TimerFires 0, TimerFires 0, KeyUp (evA 1)] initial = None"
  proof (cases "steps noFailure [KeyDown (evA 0), TimerFires 0, TimerFires 0, KeyUp (evA 1)]
                  initial")
    case None
    then show ?thesis .
  next
    case (Some s')
    then have "steps noFailure (KeyDown (evA 0) # [TimerFires 0, TimerFires 0] @ [KeyUp (evA 1)])
                 initial = Some s'"
      by simp
    with w[of initial "[TimerFires 0, TimerFires 0]" noFailure "evA 0" "evA 1" s',
           THEN conjunct1] p k2
    have "filter isTimerEvent [TimerFires 0, TimerFires 0] = []
        \<or> filter isTimerEvent [TimerFires 0, TimerFires 0] = [TimerFires (nextTimer initial)]"
      by blast
    then show ?thesis by simp
  qed
  show ?thesis using p k0 k1 short hold twice by simp
qed

text \<open>
  Presses that overlap: \<open>A\<close> is pressed, \<open>B\<close> is pressed, \<open>A\<close> is released, which clears
  the timer of \<open>B\<close> and runs the short-press tree of \<open>A\<close>, and then the timer of \<open>A\<close>
  fires and runs the hold tree. The one press of \<open>A\<close> has run both trees.
\<close>

theorem overlapping_presses_counterexample:
  "map_option trace
     (steps noFailure [KeyDown (evA 0), KeyDown (evB 0), KeyUp (evA 0), TimerFires 0] initial)
   = Some [Exec (SimulateTyping (ascii ''zero'')), SetState ''A'' 1,
           Exec (Open (ascii ''hold''))]"
  by (simp add: step_def handler_defs evA_def evB_def payloadState_def exampleSettings_def
        treeOf_def initial_def runCommand_def dispatch_def call_def noFailure_def)

section \<open>Pending timers\<close>

text \<open>
  C4, as the code has it. Start with no timer pending and let no press-down arrive while
  an earlier press is unreleased: then at every point of the event sequence at most one
  timer is pending. A press-down that arrives while a timer is pending is accepted and
  sets a further timer: the stored handle is replaced, the pending timer is not cancelled,
  and two timers are pending.
\<close>

theorem one_timer_when_presses_do_not_overlap:
  "(pending s = [] \<and> noOverlap False es \<and> steps ex (take n es) s = Some s' \<longrightarrow>
      length (pending s') \<le> 1)
   \<and> (pending s = [(t, e)] \<longrightarrow>
        pending (onKeyDown d s) = [(t, e), (nextTimer s, d)]
        \<and> pressTimer (onKeyDown d s) = Some (nextTimer s))"
proof (intro conjI impI)
  assume a: "pending s = [] \<and> noOverlap False es \<and> steps ex (take n es) s = Some s'"
  then have "timerInv False s" by (simp add: timerInv_def)
  moreover have "noOverlap False (take n es)" using a noOverlap_take by blast
  ultimately obtain down' where "timerInv down' s'"
    using timerInv_steps a by blast
  then show "length (pending s') \<le> 1" by (auto simp: timerInv_def)
qed (simp_all add: onKeyDown_def)

theorem one_timer_when_presses_do_not_overlap_witness:
  "pending initial = []
   \<and> noOverlap False
       [KeyDown (evA 0), TimerFires 0, KeyUp (evA 0), KeyDown (evB 0), KeyUp (evB 0)]
   \<and> map_option pendingTimers
       (steps noFailure
          (take 4 [KeyDown (evA 0), TimerFires 0, KeyUp (evA 0), KeyDown (evB 0), KeyUp (evB 0)])
          initial) = Some [(1, ''B'')]
   \<and> pending (onKeyDown (evA 0) initial) = [(0, evA 0)]
   \<and> pending (onKeyDown (evB 0) (onKeyDown (evA 0) initial)) = [(0, evA 0), (1, evB 0)]"
  using one_timer_when_presses_do_not_overlap
          [of initial
              "[KeyDown (evA 0), TimerFires 0, KeyUp (evA 0), KeyDown (evB 0), KeyUp (evB 0)]"
              noFailure 4
              "the (steps noFailure
                 (take 4 [KeyDown (evA 0), TimerFires 0, KeyUp (evA 0), KeyDown (evB 0),
                          KeyUp (evB 0)])
                 initial)"
              0 "evA 0" "evB 0"]
        one_timer_when_presses_do_not_overlap
          [of "onKeyDown (evA 0) initial" "[]" noFailure 0 initial 0 "evA 0" "evB 0"]
  by (simp add: step_def handler_defs initial_def pendingTimers_def evB_def)

text \<open>
  Two press-downs on the same control with no release between them leave two timers
  pending. So do presses that follow the host's order for each control: \<open>A\<close> is pressed,
  \<open>B\<close> is pressed, \<open>A\<close> is released, which clears the timer of \<open>B\<close>, and \<open>A\<close> is pressed
  again while its first timer is still pending.
\<close>

theorem two_timers_counterexample:
  "map_option pendingTimers (steps noFailure [KeyDown (evA 0), KeyDown (evA 0)] initial)
     = Some [(0, ''A''), (1, ''A'')]
   \<and> map_option pressTimer (steps noFailure [KeyDown (evA 0), KeyDown (evA 0)] initial)
     = Some (Some 1)
   \<and> map_option pendingTimers
       (steps noFailure [KeyDown (evA 0), KeyDown (evB 0), KeyUp (evA 0), KeyDown (evA 1)]
          initial)
     = Some [(0, ''A''), (2, ''A'')]"
  by (simp add: step_def handler_defs initial_def evA_def evB_def pendingTimers_def)

section \<open>Failure isolation and order of the commands\<close>

text \<open>
  C5. Whatever the platform does, running a tree only adds to the trace, and what the
  executor observes of the added part is the steps of the tree's commands in list order.
  A call that throws is followed by the console entry for it, and the interpreter goes on
  with the rest of the tree from there: the error does not leave the loop.
\<close>

theorem runActionTree_isolates_failures:
  "(\<exists>added. runActionTree ex tree tr = tr @ added \<and> observed added = expectedCalls tree)
   \<and> (\<forall>c err. platformCall cmd = Some c \<longrightarrow> ex tr c = Some err \<longrightarrow>
         runActionTree ex (cmd # tree) tr =
           runActionTree ex tree (tr @ [Exec c, ConsoleError (cmd_type cmd) err]))"
  using runActionTree_extends[of ex tree tr] by (auto simp: runCommand_failure)

theorem runActionTree_isolates_failures_witness:
  "platformCall \<lparr>cmd_type = Url, cmd_value = ascii ''bad''\<rparr> = Some (Open (ascii ''bad''))
   \<and> rejectsBad [] (Open (ascii ''bad'')) = Some ''rejected''
   \<and> runActionTree rejectsBad
        [\<lparr>cmd_type = Url, cmd_value = ascii ''bad''\<rparr>, \<lparr>cmd_type = Text, cmd_value = ascii ''X''\<rparr>] []
      = [Exec (Open (ascii ''bad'')), ConsoleError Url ''rejected'', Exec (SimulateTyping (ascii ''X''))]
   \<and> observed [Exec (Open (ascii ''bad'')), ConsoleError Url ''rejected'', Exec (SimulateTyping (ascii ''X''))]
      = expectedCalls
          [\<lparr>cmd_type = Url, cmd_value = ascii ''bad''\<rparr>, \<lparr>cmd_type = Text, cmd_value = ascii ''X''\<rparr>]"
  using runActionTree_isolates_failures
          [of rejectsBad
              "[\<lparr>cmd_type = Url, cmd_value = ascii ''bad''\<rparr>, \<lparr>cmd_type = Text, cmd_value = ascii ''X''\<rparr>]"
              "[]" "\<lparr>cmd_type = Url, cmd_value = ascii ''bad''\<rparr>"]
  by (simp add: platformCall_def rejectsBad_def runCommand_def dispatch_def call_def
        observed_def expectedCalls_def expectedStep_def)

section \<open>The delay command\<close>

text \<open>
  C6, as the code has it. The value of a delay command goes through \<open>parseInt\<close>, which
  reads a signed integer after any white space. When there is no number (as for \<open>abc\<close>)
  the step leaves the trace as it is, throws nothing, and the tree continues with the next
  command. When there is a number, the step suspends with that number before the next
  command starts; for digits that denote a value below \<open>2 ^ 53\<close> the number is that value,
  negated after a minus sign.
\<close>

theorem delay_step:
  "cmd_type cmd = Delay \<Longrightarrow>
     (isNaN (parseInt (cmd_value cmd)) \<longrightarrow>
        runCommand ex cmd tr = tr \<and> runActionTree ex (cmd # tree) tr = runActionTree ex tree tr)
   \<and> (\<not> isNaN (parseInt (cmd_value cmd)) \<longrightarrow>
        runActionTree ex (cmd # tree) tr =
          runActionTree ex tree (tr @ [Sleep (parseInt (cmd_value cmd))]))
   \<and> parseInt (ascii ''abc'') = NaN
   \<and> (\<forall>ds. ds \<noteq> [] \<and> list_all isDigit ds \<and> digitsToNat ds < 2 ^ 53 \<longrightarrow>
        parseInt ds = Integer (int (digitsToNat ds))
        \<and> parseInt (0x2D # ds) = Integer (- int (digitsToNat ds)))
   \<and> (\<forall>ws str. list_all isWhiteSpace ws \<longrightarrow> parseInt (ws @ str) = parseInt str)"
  using parseInt_digits parseInt_leading_white_space
  by (auto simp: runCommand_delay)
     (simp add: parseInt_def isWhiteSpace_def isDigit_def ascii_def)

text \<open>The theorem at the tree \<open>[delay "abc", delay "50"]\<close>.\<close>

theorem delay_step_witness:
  "cmd_type \<lparr>cmd_type = Delay, cmd_value = ascii ''abc''\<rparr> = Delay
   \<and> isNaN (parseInt (ascii ''abc''))
   \<and> ascii ''50'' \<noteq> [] \<and> list_all isDigit (ascii ''50'') \<and> digitsToNat (ascii ''50'') < 2 ^ 53
   \<and> parseInt (ascii ''50'') = Integer 50
   \<and> list_all isWhiteSpace [0x00A0]
   \<and> parseInt ([0x00A0] @ ascii ''50'') = Integer 50
   \<and> runActionTree alwaysFails
        [\<lparr>cmd_type = Delay, cmd_value = ascii ''abc''\<rparr>,
         \<lparr>cmd_type = Delay, cmd_value = ascii ''50''\<rparr>] []
      = [Sleep (Integer 50)]"
proof -
  note w = delay_step [of "\<lparr>cmd_type = Delay, cmd_value = ascii ''abc''\<rparr>" alwaysFails "[]"
                          "[\<lparr>cmd_type = Delay, cmd_value = ascii ''50''\<rparr>]"]
  have d: "ascii ''50'' \<noteq> []" "list_all isDigit (ascii ''50'')"
      "digitsToNat (ascii ''50'') = 50"
    by (simp_all add: ascii_def isDigit_def digitsToNat_def digitValue_def)
  have ws: "list_all isWhiteSpace [0x00A0]" by (simp add: isWhiteSpace_def)
  have abc: "parseInt (ascii ''abc'') = NaN" using w by simp
  have fifty: "parseInt (ascii ''50'') = Integer 50"
    using w d by (auto simp: d(3))
  have nb: "parseInt ([0x00A0] @ ascii ''50'') = Integer 50"
    using w ws fifty by (metis command.select_convs(1))
  have run: "runActionTree alwaysFails
        [\<lparr>cmd_type = Delay, cmd_value = ascii ''abc''\<rparr>,
         \<lparr>cmd_type = Delay, cmd_value = ascii ''50''\<rparr>] []
      = [Sleep (Integer 50)]"
    using w abc fifty by (simp add: runCommand_delay)
  show ?thesis using d ws abc fifty nb run by simp
qed

text \<open>
  The value \<open>-5\<close> parses, to a negative number, and the step suspends with it.
\<close>

theorem delay_negative_counterexample:
  "parseInt (ascii ''-5'') = Integer (- 5) \<and> \<not> (0::int) \<le> - 5
   \<and> runActionTree noFailure [\<lparr>cmd_type = Delay, cmd_value = ascii ''-5''\<rparr>] []
       = [Sleep (Integer (- 5))]"
  by (simp add: ascii_def parseInt_def isWhiteSpace_def isDigit_def digitsToNat_def
        digitValue_def toDouble_def runCommand_def dispatch_def Let_def)

section \<open>The state write after a failing tree\<close>

text \<open>
  C7. On every platform, also one on which every call throws: a press-down and its release
  end with the state write that flips the state, and, from a state with fresh timer
  handles, a press-down, its timer and the release end with the state write that restores
  the captured state. The host has the written state afterwards.
\<close>

theorem state_write_survives_failures:
  "(\<exists>s' added. steps ex [KeyDown d, KeyUp u] s = Some s'
       \<and> trace s' = trace s @ added @ [SetState (action u) (if payloadState u = 0 then 1 else 0)]
       \<and> hostState s' (action u) = (if payloadState u = 0 then 1 else 0))
   \<and> (timersFresh s \<longrightarrow>
        (\<exists>s' added. steps ex [KeyDown d, TimerFires (nextTimer s), KeyUp u] s = Some s'
           \<and> trace s' = trace s @ added @ [SetState (action u) (payloadState d)]
           \<and> hostState s' (action u) = payloadState d))"
proof (intro conjI impI)
  obtain added where "runActionTree ex
      (treeOf (if payloadState u = 0 then tree0 (settings u) else tree1 (settings u))) (trace s)
      = trace s @ added"
    using runActionTree_extends by blast
  then show "\<exists>s' added. steps ex [KeyDown d, KeyUp u] s = Some s'
       \<and> trace s' = trace s @ added @ [SetState (action u) (if payloadState u = 0 then 1 else 0)]
       \<and> hostState s' (action u) = (if payloadState u = 0 then 1 else 0)"
    unfolding short_cycle by simp
next
  assume p: "timersFresh s"
  obtain added where "runActionTree ex (treeOf (treeHold (settings d))) (trace s)
      = trace s @ added"
    using runActionTree_extends by blast
  then show "\<exists>s' added. steps ex [KeyDown d, TimerFires (nextTimer s), KeyUp u] s = Some s'
           \<and> trace s' = trace s @ added @ [SetState (action u) (payloadState d)]
           \<and> hostState s' (action u) = payloadState d"
    unfolding hold_cycle[OF p] by simp
qed

theorem state_write_survives_failures_witness:
  "timersFresh initial
   \<and> map_option trace (steps alwaysFails [KeyDown (evA 0), KeyUp (evA 0)] initial)
       = Some [Exec (SimulateTyping (ascii ''zero'')), ConsoleError Text ''boom'', SetState ''A'' 1]
   \<and> map_option trace (steps alwaysFails [KeyDown (evA 1), TimerFires 0, KeyUp (evA 0)] initial)
       = Some [Exec (Open (ascii ''hold'')), ConsoleError Url ''boom'', SetState ''A'' 1]"
proof -
  note p = timersFresh_initial
  have n: "nextTimer initial = 0" by (simp add: initial_def)
  note w = state_write_survives_failures [of alwaysFails "evA 0" "evA 0" initial]
  note v = state_write_survives_failures [of alwaysFails "evA 1" "evA 0" initial]
  from w[THEN conjunct1] obtain s1 where
    s1: "steps alwaysFails [KeyDown (evA 0), KeyUp (evA 0)] initial = Some s1" by blast
  from v[THEN conjunct2, rule_format, OF p] obtain s2 where
    s2: "steps alwaysFails [KeyDown (evA 1), TimerFires 0, KeyUp (evA 0)] initial = Some s2"
    unfolding n by blast
  have "trace s1 = [Exec (SimulateTyping (ascii ''zero'')), ConsoleError Text ''boom'', SetState ''A'' 1]"
    using s1 unfolding short_cycle
    by (auto simp: evA_def exampleSettings_def treeOf_def payloadState_def initial_def
          runCommand_def dispatch_def call_def alwaysFails_def)
  moreover have "trace s2 = [Exec (Open (ascii ''hold'')), ConsoleError Url ''boom'', SetState ''A'' 1]"
    using s2 hold_cycle[OF p, of alwaysFails "evA 1" "evA 0"] unfolding n
    by (auto simp: evA_def exampleSettings_def treeOf_def payloadState_def initial_def
          runCommand_def dispatch_def call_def alwaysFails_def)
  ultimately show ?thesis using p s1 s2 by simp
qed

section \<open>Empty and absent trees\<close>

text \<open>
  C8. The interpreter on the empty tree returns the trace as it got it. A tree that is
  absent or empty is not run at all: \<open>executeHold\<close> then changes nothing, and
  \<open>executeToggle\<close> does nothing but its state write. No platform call is made and nothing
  is written to the console, on any platform.
\<close>

theorem empty_tree_noop:
  "runActionTree ex [] tr = tr
   \<and> (t = None \<or> t = Some [] \<longrightarrow> runIfPresent ex t s = s)
   \<and> (treeHold (settings ev) = None \<or> treeHold (settings ev) = Some [] \<longrightarrow>
        executeHold ex ev s = s)
   \<and> ((if payloadState ev = 0 then tree0 (settings ev) else tree1 (settings ev)) = None
       \<or> (if payloadState ev = 0 then tree0 (settings ev) else tree1 (settings ev)) = Some [] \<longrightarrow>
        executeToggle ex ev s = setState (action ev) (if payloadState ev = 0 then 1 else 0) s)"
  by (auto simp: runIfPresent_def executeHold_def executeToggle_def Let_def)

theorem empty_tree_noop_witness:
  "treeHold (settings \<lparr>action = ''A'', state = None,
        settings = \<lparr>tree0 = Some [], tree1 = None, treeHold = None\<rparr>\<rparr>) = None
   \<and> trace (executeHold alwaysFails \<lparr>action = ''A'', state = None,
        settings = \<lparr>tree0 = Some [], tree1 = None, treeHold = None\<rparr>\<rparr> initial) = []
   \<and> trace (executeToggle alwaysFails \<lparr>action = ''A'', state = None,
        settings = \<lparr>tree0 = Some [], tree1 = None, treeHold = None\<rparr>\<rparr> initial)
       = [SetState ''A'' 1]"
  using empty_tree_noop [of alwaysFails "[]" None initial "\<lparr>action = ''A'', state = None,
        settings = \<lparr>tree0 = Some [], tree1 = None, treeHold = None\<rparr>\<rparr>"]
  by (simp add: payloadState_def initial_def setState_def)

section \<open>The file dialog\<close>

text \<open>
  C9, as the code has it. \<open>browseFile\<close> gives the empty string when the dialog command
  ends with an error. When the command prints a path and a line end, \<open>browseFile\<close> gives
  the path with the white space at its two ends removed; that is the path itself exactly
  when the path is empty or neither begins nor ends with white space. A message of the
  inspector with the event \<open>browseFile\<close> is answered with one message \<open>filePicked\<close> to
  the same control, carrying that string and the index and tree of the request; any other
  message is ignored.
\<close>

theorem browseFile_reply:
  "browseFile (ExecError err) = []
   \<and> (list_all isWhiteSpace eol \<longrightarrow> browseFile (ExecOk (path @ eol)) = trim path)
   \<and> (trim path = path \<longleftrightarrow>
        path = [] \<or> (\<not> isWhiteSpace (hd path) \<and> \<not> isWhiteSpace (last path)))
   \<and> (pi_event ev = ascii ''browseFile'' \<longrightarrow>
        onSendToPlugin ev r s =
          s\<lparr>trace := trace s @
              [SendToPropertyInspector (pi_action ev)
                 \<lparr>fp_event = ascii ''filePicked'', fp_filePath = browseFile r,
                  fp_index = pi_index ev, fp_tree = pi_tree ev\<rparr>]\<rparr>)
   \<and> (pi_event ev \<noteq> ascii ''browseFile'' \<longrightarrow> onSendToPlugin ev r s = s)"
  using trim_fixed[of path] trim_append_white_space[of eol path]
  by (auto simp: browseFile_def onSendToPlugin_def)

text \<open>
  A path printed with a carriage return and a line feed, an empty output, and a dialog
  that ends with an error.
\<close>

theorem browseFile_reply_witness:
  "list_all isWhiteSpace [0x000D, 0x000A]
   \<and> browseFile (ExecOk (ascii ''C:/a.txt'' @ [0x000D, 0x000A])) = ascii ''C:/a.txt''
   \<and> browseFile (ExecOk []) = []
   \<and> pi_event \<lparr>pi_action = ''A'', pi_event = ascii ''browseFile'', pi_index = Num 2,
               pi_tree = Str (ascii ''tree1'')\<rparr> = ascii ''browseFile''
   \<and> trace (onSendToPlugin
        \<lparr>pi_action = ''A'', pi_event = ascii ''browseFile'', pi_index = Num 2,
         pi_tree = Str (ascii ''tree1'')\<rparr>
        (ExecError ''cancelled'') initial)
      = [SendToPropertyInspector ''A''
           \<lparr>fp_event = ascii ''filePicked'', fp_filePath = [], fp_index = Num 2,
            fp_tree = Str (ascii ''tree1'')\<rparr>]"
proof -
  have ws: "list_all isWhiteSpace [0x000D, 0x000A]" by (simp add: isWhiteSpace_def)
  have ends: "\<not> isWhiteSpace (hd (ascii ''C:/a.txt''))" "\<not> isWhiteSpace (last (ascii ''C:/a.txt''))"
    by (simp_all add: ascii_def isWhiteSpace_def)
  note w = browseFile_reply [of "''cancelled''" "[0x000D, 0x000A]" "ascii ''C:/a.txt''"
      "\<lparr>pi_action = ''A'', pi_event = ascii ''browseFile'', pi_index = Num 2,
        pi_tree = Str (ascii ''tree1'')\<rparr>"
      "ExecError ''cancelled''" initial]
  note e = browseFile_reply [of "''cancelled''" "[]" "[]"]
  have a: "browseFile (ExecOk (ascii ''C:/a.txt'' @ [0x000D, 0x000A])) = ascii ''C:/a.txt''"
    using w ws ends by simp
  have b: "browseFile (ExecOk []) = []" using e by simp
  show ?thesis using w ws a b by (simp add: initial_def)
qed

text \<open>
  A chosen file whose name ends in a space, or in a no-break space, comes back without it.
\<close>

theorem browseFile_trailing_space_counterexample:
  "browseFile (ExecOk (ascii ''/tmp/a '' @ [0x000A])) = ascii ''/tmp/a''
   \<and> ascii ''/tmp/a'' \<noteq> ascii ''/tmp/a ''
   \<and> browseFile (ExecOk (ascii ''/tmp/a'' @ [0x00A0, 0x000A])) = ascii ''/tmp/a''"
  by (simp add: browseFile_def trim_def ascii_def isWhiteSpace_def)

section \<open>One handler for all controls\<close>

text \<open>
  C10. The three fields belong to the handler, not to a control, and no handler looks at
  the control of an event before it reads or writes them. A press-down clears the flag,
  whoever set it. A press-down after another press-down, of whatever control, overwrites
  the captured state and the stored handle, while the timer of the first press stays
  pending. A release, of whatever control, clears the timer whose handle is stored and
  forgets the handle.
\<close>

theorem shared_handler_fields:
  "isLongPress (onKeyDown b s) = False
   \<and> initialState (onKeyDown b (onKeyDown a s)) = payloadState b
   \<and> pressTimer (onKeyDown a s) = Some (nextTimer s)
   \<and> pressTimer (onKeyDown b (onKeyDown a s)) = Some (Suc (nextTimer s))
   \<and> pending (onKeyDown b (onKeyDown a s))
       = pending s @ [(nextTimer s, a), (Suc (nextTimer s), b)]
   \<and> (pressTimer s = Some t \<longrightarrow>
        pressTimer (onKeyUp ex u s) = None
        \<and> pending (onKeyUp ex u s) = filter (\<lambda>p. fst p \<noteq> t) (pending s))"
  by (auto simp: handler_defs)

text \<open>
  Control \<open>A\<close> is pressed in state 0, then control \<open>B\<close> in state 1; the release of \<open>A\<close>
  clears the timer of \<open>B\<close> and leaves its own pending.
\<close>

theorem shared_handler_fields_witness:
  "action (evA 0) \<noteq> action (evB 1)
   \<and> initialState (onKeyDown (evA 0) initial) = 0
   \<and> initialState (onKeyDown (evB 1) (onKeyDown (evA 0) initial)) = 1
   \<and> pressTimer (onKeyDown (evB 1) (onKeyDown (evA 0) initial)) = Some 1
   \<and> pending (onKeyDown (evB 1) (onKeyDown (evA 0) initial)) = [(0, evA 0), (1, evB 1)]
   \<and> pending (onKeyUp noFailure (evA 0) (onKeyDown (evB 1) (onKeyDown (evA 0) initial)))
       = [(0, evA 0)]"
  using shared_handler_fields [of "evB 1" initial "evA 0"]
        shared_handler_fields [of "evB 1" "onKeyDown (evB 1) (onKeyDown (evA 0) initial)"
                                  "evA 0" 1 noFailure "evA 0"]
  by (simp add: initial_def payloadState_def evA_def evB_def onKeyDown_def)

end
